theory Spec2Isabelle
  imports Complex_Main "HOL-Library.Product_Lexorder"
begin

section \<open>Python values used by the retrieval core\<close>

text \<open>
  Metadata and filters are \<^verbatim>\<open>Dict[str, Any]\<close>. A dictionary is kept as an association
  list with distinct keys, in insertion order; the values that occur are strings and
  \<^verbatim>\<open>None\<close>.
\<close>

datatype pyval = PNone | PStr string

type_synonym pydict = "(string \<times> pyval) list"

datatype py_error = AssertionError | IndexError | ValidationError

text \<open>\<^verbatim>\<open>d.get(k, default)\<close>; \<^verbatim>\<open>d.get(k)\<close> is the call with default \<^verbatim>\<open>None\<close>.\<close>

definition dict_get :: "pydict \<Rightarrow> string \<Rightarrow> pyval \<Rightarrow> pyval" where
  "dict_get dct k dflt = (case map_of dct k of None \<Rightarrow> dflt | Some v \<Rightarrow> v)"

text \<open>\<^verbatim>\<open>d.setdefault(k, v)\<close>: a present key keeps its value, an absent one is appended.\<close>

definition setdefault :: "pydict \<Rightarrow> string \<Rightarrow> pyval \<Rightarrow> pydict" where
  "setdefault dct k v = (case map_of dct k of None \<Rightarrow> dct @ [(k, v)] | Some _ \<Rightarrow> dct)"

text \<open>\<^verbatim>\<open>xs[i]\<close> on a Python list: a negative index counts from the end, and an index
  outside the list raises.\<close>

definition py_index :: "'a list \<Rightarrow> int \<Rightarrow> py_error + 'a" where
  "py_index xs i =
     (if 0 \<le> i \<and> i < int (length xs) then Inr (xs ! nat i)
      else if i < 0 \<and> - int (length xs) \<le> i then Inr (xs ! nat (int (length xs) + i))
      else Inl IndexError)"

text \<open>\<^verbatim>\<open>xs[:k]\<close>: a negative bound drops that many elements from the end.\<close>

definition py_slice_to :: "'a list \<Rightarrow> int \<Rightarrow> 'a list" where
  "py_slice_to xs k = (if 0 \<le> k then take (nat k) xs else take (nat (int (length xs) + k)) xs)"

section \<open>The vector library: normalisation and the flat inner-product index\<close>

text \<open>
  A vector is a row of a numpy array; a two-dimensional array is the list of its rows.
  The 32-bit floats of the library are written as real numbers, and rounding, overflow
  and underflow are not modelled. The theorems below therefore use the arithmetic only
  where 32-bit floats agree with it: at values they represent exactly, and through the
  order of the scores.
\<close>

type_synonym vec = "real list"

definition fvec_norm_L2sqr :: "vec \<Rightarrow> real" where
  "fvec_norm_L2sqr x = sum_list (map (\<lambda>a. a * a) x)"

definition fvec_inner_product :: "vec \<Rightarrow> vec \<Rightarrow> real" where
  "fvec_inner_product x y = sum_list (map2 (\<lambda>a b. a * b) x y)"

text \<open>One row of \<^verbatim>\<open>faiss.normalize_L2\<close>: a row of squared norm 0 is left as it is, any other
  row is scaled by the inverse of its norm.\<close>

definition fvec_renorm_L2 :: "vec \<Rightarrow> vec" where
  "fvec_renorm_L2 x =
     (let nr = fvec_norm_L2sqr x
      in if 0 < nr then map (\<lambda>a. a * (1 / sqrt nr)) x else x)"

definition normalize_L2 :: "vec list \<Rightarrow> vec list" where
  "normalize_L2 xs = map fvec_renorm_L2 xs"

text \<open>\<^verbatim>\<open>faiss.IndexFlatIP(dim)\<close>: the dimension and the stored rows, in insertion order.\<close>

record IndexFlatIP =
  idx_d :: nat
  idx_xb :: "vec list"

definition IndexFlatIP_new :: "nat \<Rightarrow> IndexFlatIP" where
  "IndexFlatIP_new dm = \<lparr>idx_d = dm, idx_xb = []\<rparr>"

text \<open>\<^verbatim>\<open>index.add(x)\<close> asserts that the rows have the index's dimension and appends them.\<close>

definition IndexFlatIP_add :: "IndexFlatIP \<Rightarrow> vec list \<Rightarrow> py_error + IndexFlatIP" where
  "IndexFlatIP_add ix x =
     (if list_all (\<lambda>row. length row = idx_d ix) x
      then Inr (ix\<lparr>idx_xb := idx_xb ix @ x\<rparr>)
      else Inl AssertionError)"

text \<open>The value the library writes as distance where there is no result: the lowest
  32-bit float.\<close>

definition FLT_LOWEST :: real where
  "FLT_LOWEST = - 340282346638528859811704183484516925440"

text \<open>The inner product of the query with every stored row, in insertion order.\<close>

definition index_scores :: "IndexFlatIP \<Rightarrow> vec \<Rightarrow> real list" where
  "index_scores ix q = map (fvec_inner_product q) (idx_xb ix)"

text \<open>
  The library keeps the \<open>k\<close> best results seen so far in a min-heap of pairs of distance
  and label, ordered by distance and, among equal distances, by label. The heap is kept
  here as the ascending list of its pairs, the worst of them first. It starts with \<open>k\<close>
  pairs of the lowest float and the label \<open>-1\<close>; a row replaces the worst pair when its
  distance is above that pair's; at the end the pairs are returned largest first. So
  among rows of equal distance that are returned the later-inserted comes first, and a
  row that only equals the worst distance does not enter. (This is the result handler for \<open>k\<close> below
  100; no theorem below depends on what happens among equal distances.)
\<close>

definition add_result :: "(real \<times> int) list \<Rightarrow> real \<times> int \<Rightarrow> (real \<times> int) list" where
  "add_result heap res =
     (case heap of
        [] \<Rightarrow> []
      | worst # others \<Rightarrow> if fst worst < fst res then insort res others else heap)"

definition knn_heap :: "real list \<Rightarrow> nat \<Rightarrow> (real \<times> int) list" where
  "knn_heap scores k =
     foldl add_result (replicate k (FLT_LOWEST, - 1)) (zip scores (map int [0..<length scores]))"

text \<open>
  \<^verbatim>\<open>index.search(x, k)\<close> for one query row: it asserts the query's dimension and
  \<^verbatim>\<open>k > 0\<close>, and returns \<open>k\<close> distances and \<open>k\<close> labels, the best first; where the
  index holds fewer than \<open>k\<close> rows the remaining labels are \<open>-1\<close>.
\<close>

definition IndexFlatIP_search :: "IndexFlatIP \<Rightarrow> vec \<Rightarrow> int \<Rightarrow> py_error + (real list \<times> int list)" where
  "IndexFlatIP_search ix q k =
     (if length q \<noteq> idx_d ix \<or> k \<le> 0 then Inl AssertionError
      else
        let best = rev (knn_heap (index_scores ix q) (nat k))
        in Inr (map fst best, map snd best))"

section \<open>FAISSVectorDB\<close>

record FAISSVectorDB =
  index :: IndexFlatIP
  metadata :: "pydict list"

definition FAISSVectorDB_init :: "nat \<Rightarrow> FAISSVectorDB" where
  "FAISSVectorDB_init dm = \<lparr>index = IndexFlatIP_new dm, metadata = []\<rparr>"

text \<open>
  \<^verbatim>\<open>add\<close> normalises the caller's array in place, hands it to the index and extends the
  metadata list. The first component of the result is the caller's array after the
  call; the second is the store, or the exception that left it as it was.
\<close>

definition FAISSVectorDB_add ::
    "FAISSVectorDB \<Rightarrow> vec list \<Rightarrow> pydict list \<Rightarrow> vec list \<times> (py_error + FAISSVectorDB)" where
  "FAISSVectorDB_add self vectors mds =
     (let vectors' = normalize_L2 vectors
      in (vectors',
          case IndexFlatIP_add (index self) vectors' of
            Inl e \<Rightarrow> Inl e
          | Inr ix \<Rightarrow> Inr (self\<lparr>index := ix, metadata := metadata self @ mds\<rparr>)))"

text \<open>Lines 29 to 31 of \<^verbatim>\<open>search\<close>: the query is normalised and the index searched.\<close>

definition search_index :: "FAISSVectorDB \<Rightarrow> vec \<Rightarrow> int \<Rightarrow> py_error + (real list \<times> int list)" where
  "search_index self query_vector top_k =
     IndexFlatIP_search (index self) (fvec_renorm_L2 query_vector) top_k"

text \<open>Lines 36 to 38: the copy of an entry, given the two default keys.\<close>

definition with_defaults :: "pydict \<Rightarrow> pydict" where
  "with_defaults m = setdefault (setdefault m ''text'' (PStr '''')) ''source'' (PStr ''unknown'')"

text \<open>The loop over the labels: a label below the length of the metadata list is looked
  up there, and the copy with the default keys is appended to the results.\<close>

fun collect_items :: "pydict list \<Rightarrow> int list \<Rightarrow> py_error + pydict list" where
  "collect_items mds [] = Inr []"
| "collect_items mds (i # rest) =
     (if i < int (length mds) then
        (case py_index mds i of
           Inl e \<Rightarrow> Inl e
         | Inr m \<Rightarrow>
             (case collect_items mds rest of
                Inl e \<Rightarrow> Inl e
              | Inr results \<Rightarrow> Inr (with_defaults m # results)))
      else collect_items mds rest)"

text \<open>
  \<^verbatim>\<open>if filters:\<close> holds for a dictionary that is given and not empty; the results
  are then cut down to those whose \<^verbatim>\<open>"source"\<close> equals the filter's \<^verbatim>\<open>"source"\<close>,
  a missing key reading as \<^verbatim>\<open>None\<close> on either side.
\<close>

definition source_matches :: "pydict \<Rightarrow> pydict \<Rightarrow> bool" where
  "source_matches f r = (dict_get r ''source'' PNone = dict_get f ''source'' PNone)"

fun apply_filters :: "pydict option \<Rightarrow> pydict list \<Rightarrow> pydict list" where
  "apply_filters None results = results"
| "apply_filters (Some f) results = (if f \<noteq> [] then filter (source_matches f) results else results)"

definition FAISSVectorDB_search ::
    "FAISSVectorDB \<Rightarrow> vec \<Rightarrow> int \<Rightarrow> pydict option \<Rightarrow> py_error + pydict list" where
  "FAISSVectorDB_search self query_vector top_k filters =
     (case search_index self query_vector top_k of
        Inl e \<Rightarrow> Inl e
      | Inr (distances, indices) \<Rightarrow>
          (case collect_items (metadata self) indices of
             Inl e \<Rightarrow> Inl e
           | Inr results \<Rightarrow> Inr (apply_filters filters results)))"

section \<open>FAISSVectorDB with the dictionaries held by reference\<close>

text \<open>
  \<^verbatim>\<open>self.metadata.extend(metadata)\<close> stores the caller's dictionary objects themselves,
  and \<^verbatim>\<open>.copy()\<close> makes a new object. To say which objects an operation writes to,
  the same two methods are given once more over a list of all dictionary objects,
  addressed by position; the store holds addresses.
\<close>

type_synonym objects = "pydict list"

record FAISSVectorDB_obj =
  index_obj :: IndexFlatIP
  metadata_refs :: "nat list"

definition dict_copy :: "objects \<Rightarrow> nat \<Rightarrow> objects \<times> nat" where
  "dict_copy objs r = (objs @ [objs ! r], length objs)"

definition obj_setdefault :: "objects \<Rightarrow> nat \<Rightarrow> string \<Rightarrow> pyval \<Rightarrow> objects" where
  "obj_setdefault objs r k v = objs[r := setdefault (objs ! r) k v]"

definition FAISSVectorDB_add_obj ::
    "objects \<Rightarrow> FAISSVectorDB_obj \<Rightarrow> vec list \<Rightarrow> nat list
       \<Rightarrow> objects \<times> vec list \<times> (py_error + FAISSVectorDB_obj)" where
  "FAISSVectorDB_add_obj objs self vectors md_refs =
     (let vectors' = normalize_L2 vectors
      in (objs, vectors',
          case IndexFlatIP_add (index_obj self) vectors' of
            Inl e \<Rightarrow> Inl e
          | Inr ix \<Rightarrow> Inr (self\<lparr>index_obj := ix, metadata_refs := metadata_refs self @ md_refs\<rparr>)))"

fun collect_items_obj :: "objects \<Rightarrow> nat list \<Rightarrow> int list \<Rightarrow> objects \<times> (py_error + nat list)" where
  "collect_items_obj objs refs [] = (objs, Inr [])"
| "collect_items_obj objs refs (i # rest) =
     (if i < int (length refs) then
        (case py_index refs i of
           Inl e \<Rightarrow> (objs, Inl e)
         | Inr r \<Rightarrow>
             (let (objs1, item) = dict_copy objs r;
                  objs2 = obj_setdefault objs1 item ''text'' (PStr '''');
                  objs3 = obj_setdefault objs2 item ''source'' (PStr ''unknown'')
              in (case collect_items_obj objs3 refs rest of
                    (objs', Inl e) \<Rightarrow> (objs', Inl e)
                  | (objs', Inr results) \<Rightarrow> (objs', Inr (item # results)))))
      else collect_items_obj objs refs rest)"

fun apply_filters_obj :: "objects \<Rightarrow> pydict option \<Rightarrow> nat list \<Rightarrow> nat list" where
  "apply_filters_obj objs None results = results"
| "apply_filters_obj objs (Some f) results =
     (if f \<noteq> [] then filter (\<lambda>r. source_matches f (objs ! r)) results else results)"

definition FAISSVectorDB_search_obj ::
    "objects \<Rightarrow> FAISSVectorDB_obj \<Rightarrow> vec \<Rightarrow> int \<Rightarrow> pydict option
       \<Rightarrow> objects \<times> (py_error + nat list)" where
  "FAISSVectorDB_search_obj objs self query_vector top_k filters =
     (case IndexFlatIP_search (index_obj self) (fvec_renorm_L2 query_vector) top_k of
        Inl e \<Rightarrow> (objs, Inl e)
      | Inr (distances, indices) \<Rightarrow>
          (case collect_items_obj objs (metadata_refs self) indices of
             (objs', Inl e) \<Rightarrow> (objs', Inl e)
           | (objs', Inr results) \<Rightarrow> (objs', Inr (apply_filters_obj objs' filters results))))"

text \<open>The store by value that a store by reference stands for.\<close>

definition store_of :: "objects \<Rightarrow> FAISSVectorDB_obj \<Rightarrow> FAISSVectorDB" where
  "store_of objs self =
     \<lparr>index = index_obj self, metadata = map (\<lambda>r. objs ! r) (metadata_refs self)\<rparr>"

section \<open>QdrantVectorDB\<close>

record point =
  point_id :: string
  point_vector :: vec
  point_payload :: pydict

text \<open>
  The points \<^verbatim>\<open>add\<close> builds from \<^verbatim>\<open>zip(vectors, metadata)\<close>; \<open>uuid4 n\<close> is the
  identifier drawn for the \<open>n\<close>-th pair.
\<close>

definition make_payload :: "pydict \<Rightarrow> pydict" where
  "make_payload meta =
     [(''text'', dict_get meta ''text'' (PStr '''')),
      (''source'', dict_get meta ''source'' (PStr ''unknown''))]"

definition make_points :: "(nat \<Rightarrow> string) \<Rightarrow> vec list \<Rightarrow> pydict list \<Rightarrow> point list" where
  "make_points uuid4 vectors mds =
     map (\<lambda>(n, vec, meta). \<lparr>point_id = uuid4 n, point_vector = vec, point_payload = make_payload meta\<rparr>)
         (zip [0..<length (zip vectors mds)] (zip vectors mds))"

text \<open>
  \<^verbatim>\<open>add\<close> hands the points to \<^verbatim>\<open>client.upsert\<close>. The client and the collection it
  holds are outside this repository: \<open>client_upsert\<close> stands for the call, which gives
  the client's new state or raises. (A client that reads the points as objects raises
  on the plain dictionaries built here and stores nothing.)
\<close>

definition QdrantVectorDB_add ::
    "(point list \<Rightarrow> py_error + 'c) \<Rightarrow> (nat \<Rightarrow> string) \<Rightarrow> vec list \<Rightarrow> pydict list
       \<Rightarrow> py_error + 'c" where
  "QdrantVectorDB_add client_upsert uuid4 vectors mds =
     client_upsert (make_points uuid4 vectors mds)"

text \<open>
  \<^verbatim>\<open>search\<close> turns a non-empty filter into a condition on \<^verbatim>\<open>"source"\<close>; building the
  condition from \<^verbatim>\<open>None\<close>, which is what a filter without that key gives, raises. It
  then hands the query, the limit and the condition to \<^verbatim>\<open>client.search\<close>, here the
  parameter \<open>client_search\<close>, and builds one result from the payload of every hit.
\<close>

fun filter_cond :: "pydict option \<Rightarrow> py_error + pyval option" where
  "filter_cond None = Inr None"
| "filter_cond (Some f) =
     (if f \<noteq> [] then
        (case dict_get f ''source'' PNone of
           PNone \<Rightarrow> Inl ValidationError
         | PStr s \<Rightarrow> Inr (Some (PStr s)))
      else Inr None)"

definition QdrantVectorDB_search ::
    "(vec \<Rightarrow> int \<Rightarrow> pyval option \<Rightarrow> py_error + point list)
       \<Rightarrow> vec \<Rightarrow> int \<Rightarrow> pydict option \<Rightarrow> py_error + pydict list" where
  "QdrantVectorDB_search client_search query_vector top_k filters =
     (case filter_cond filters of
        Inl e \<Rightarrow> Inl e
      | Inr cond \<Rightarrow>
          (case client_search query_vector top_k cond of
             Inl e \<Rightarrow> Inl e
           | Inr hits \<Rightarrow> Inr (map (\<lambda>hit. make_payload (point_payload hit)) hits)))"

section \<open>Retriever\<close>

text \<open>\<^verbatim>\<open>[valid_candidates[i] for i in sorted_idx]\<close>.\<close>

fun gather :: "'a list \<Rightarrow> int list \<Rightarrow> py_error + 'a list" where
  "gather xs [] = Inr []"
| "gather xs (i # rest) =
     (case py_index xs i of
        Inl e \<Rightarrow> Inl e
      | Inr x \<Rightarrow> (case gather xs rest of Inl e \<Rightarrow> Inl e | Inr ys \<Rightarrow> Inr (x # ys)))"

text \<open>
  The store's \<^verbatim>\<open>search\<close>, the embedder, the cross-encoder's \<^verbatim>\<open>predict\<close> and
  \<^verbatim>\<open>np.argsort\<close> are parameters; \<open>reranker\<close> is \<open>None\<close> where no reranker model is
  configured. Of \<^verbatim>\<open>np.argsort\<close> only what it documents is used: it returns the
  positions of the scores in an order in which the scores ascend. In which order it
  returns the positions of equal scores is not fixed.
\<close>

definition Retriever_retrieve ::
    "(vec \<Rightarrow> int \<Rightarrow> pydict option \<Rightarrow> py_error + pydict list) \<Rightarrow> (string \<Rightarrow> vec)
       \<Rightarrow> ((string \<times> pyval) list \<Rightarrow> real list) option \<Rightarrow> (real list \<Rightarrow> nat list)
       \<Rightarrow> string \<Rightarrow> int \<Rightarrow> int \<Rightarrow> pydict option \<Rightarrow> py_error + pydict list" where
  "Retriever_retrieve db_search embedder reranker argsort query top_k_initial top_k_final filters =
     (let query_vec = embedder query
      in case db_search query_vec top_k_initial filters of
           Inl e \<Rightarrow> Inl e
         | Inr candidates \<Rightarrow>
             (let valid_candidates = filter (\<lambda>c. map_of c ''text'' \<noteq> None) candidates
              in (case reranker of
                    None \<Rightarrow> Inr (py_slice_to valid_candidates top_k_final)
                  | Some predict \<Rightarrow>
                      (if valid_candidates \<noteq> [] then
                         (let pairs = map (\<lambda>c. (query, dict_get c ''text'' PNone)) valid_candidates;
                              scores = predict pairs;
                              sorted_idx = py_slice_to (rev (argsort scores)) top_k_final
                          in gather valid_candidates (map int sorted_idx))
                       else Inr (py_slice_to valid_candidates top_k_final)))))"

text \<open>What \<^verbatim>\<open>np.argsort\<close> documents of its result on one array of scores.\<close>

definition is_argsort :: "real list \<Rightarrow> nat list \<Rightarrow> bool" where
  "is_argsort scores idx \<longleftrightarrow>
     distinct idx \<and> set idx = {0..<length scores} \<and> sorted (map (\<lambda>i. scores ! i) idx)"

section \<open>The ranking the specification asks of a search\<close>

text \<open>
  In the specification's words, a search returns the \<open>top_k\<close> highest scores in
  descending order. A list of labels is such a ranking when it names \<open>min k n\<close>
  different stored rows, in an order in which the scores do not increase, and no row
  left out scores above a row in the list. Which of several rows of equal score stands
  first is left open.
\<close>

definition top_k_ranking :: "real list \<Rightarrow> nat \<Rightarrow> nat list \<Rightarrow> bool" where
  "top_k_ranking scores k ls \<longleftrightarrow>
     distinct ls \<and> (\<forall>l \<in> set ls. l < length scores) \<and> length ls = min k (length scores)
     \<and> sorted_wrt (\<lambda>i j. scores ! j \<le> scores ! i) ls
     \<and> (\<forall>i < length scores. i \<notin> set ls \<longrightarrow> (\<forall>l \<in> set ls. scores ! i \<le> scores ! l))"

section \<open>Example stores\<close>

definition meta_a :: pydict where
  "meta_a = [(''text'', PStr ''cats are mammals''), (''source'', PStr ''a.txt'')]"

definition meta_b :: pydict where
  "meta_b = [(''text'', PStr ''stocks rose today''), (''source'', PStr ''b.txt'')]"

text \<open>One entry, and two entries of which the later one is the closer to the query
  \<open>[1, 0]\<close>.\<close>

definition store_one :: FAISSVectorDB where
  "store_one = \<lparr>index = \<lparr>idx_d = 2, idx_xb = [[1, 0]]\<rparr>, metadata = [meta_a]\<rparr>"

definition store_two :: FAISSVectorDB where
  "store_two = \<lparr>index = \<lparr>idx_d = 2, idx_xb = [[0, 1], [1, 0]]\<rparr>, metadata = [meta_a, meta_b]\<rparr>"

text \<open>An entry with a key beyond the two required ones, alone in a store, and a store
  whose one vector is all-zero.\<close>

definition meta_page :: pydict where
  "meta_page = [(''text'', PStr ''cats are mammals''), (''source'', PStr ''a.txt''), (''page'', PStr ''3'')]"

definition store_page :: FAISSVectorDB where
  "store_page = \<lparr>index = \<lparr>idx_d = 2, idx_xb = [[1, 0]]\<rparr>, metadata = [meta_page]\<rparr>"

definition store_zero :: FAISSVectorDB where
  "store_zero = \<lparr>index = \<lparr>idx_d = 2, idx_xb = [[0, 0]]\<rparr>, metadata = [meta_a]\<rparr>"

text \<open>Two stand-ins for the cross-encoder: one gives every pair the same score, one
  scores the passage about cats above every other.\<close>

definition predict_equal :: "(string \<times> pyval) list \<Rightarrow> real list" where
  "predict_equal pairs = map (\<lambda>p. 1) pairs"

definition predict_cats :: "(string \<times> pyval) list \<Rightarrow> real list" where
  "predict_cats pairs = map (\<lambda>p. if snd p = PStr ''cats are mammals'' then 2 else 1) pairs"

text \<open>
  A stand-in for \<^verbatim>\<open>np.argsort\<close>: the sort by insertion, which meets what is documented
  and returns the positions of equal scores in their order. \<^verbatim>\<open>np.argsort\<close> returns
  the same wherever the scores are all different, and on an array of two equal scores;
  on longer arrays with equal scores it may return another order.
\<close>

definition argsort_insertion :: "real list \<Rightarrow> nat list" where
  "argsort_insertion scores = sort_key (\<lambda>i. scores ! i) [0..<length scores]"

section \<open>The state of the index's heap during a search\<close>

text \<open>
  What holds of the heap once the first \<open>j\<close> rows have been offered to it: it has \<open>k\<close>
  pairs in ascending order; each pair is the initial one or the score and label of one
  of these rows; no row is in it twice; and a row that is not in it scores no higher
  than any pair in it.
\<close>

definition heap_inv :: "real list \<Rightarrow> nat \<Rightarrow> nat \<Rightarrow> (real \<times> int) list \<Rightarrow> bool" where
  "heap_inv scores k j heap \<longleftrightarrow>
     length heap = k \<and> sorted heap
     \<and> (\<forall>e \<in> set heap. e = (FLT_LOWEST, - 1) \<or> (\<exists>i < j. e = (scores ! i, int i)))
     \<and> distinct (filter (\<lambda>e. e \<noteq> (FLT_LOWEST, - 1)) heap)
     \<and> (\<forall>i < j. (scores ! i, int i) \<notin> set heap \<longrightarrow> (\<forall>e \<in> set heap. scores ! i \<le> fst e))"

section \<open>Evaluating the store on concrete inputs\<close>

lemmas store_eval =
  FAISSVectorDB_search_def search_index_def IndexFlatIP_search_def knn_heap_def add_result_def
  index_scores_def with_defaults_def
  FAISSVectorDB_init_def IndexFlatIP_new_def fvec_renorm_L2_def fvec_norm_L2sqr_def
  fvec_inner_product_def py_index_def setdefault_def dict_get_def source_matches_def
  FAISSVectorDB_add_def IndexFlatIP_add_def normalize_L2_def Let_def eval_nat_numeral upt_rec
  store_one_def store_two_def meta_a_def meta_b_def FLT_LOWEST_def
  meta_page_def store_page_def store_zero_def

lemma store_one_built:
  "snd (FAISSVectorDB_add (FAISSVectorDB_init 2) [[1, 0]] [meta_a]) = Inr store_one"
  by (simp add: store_eval)

lemma store_two_built:
  "snd (FAISSVectorDB_add (FAISSVectorDB_init 2) [[0, 1], [1, 0]] [meta_a, meta_b]) = Inr store_two"
  by (simp add: store_eval)

text \<open>
  C1. On a store with zero entries the index returns the label \<open>-1\<close> five times for
  \<open>top_k = 5\<close>; \<open>-1\<close> is below the length 0 of the metadata list, so the loop reads
  \<^verbatim>\<open>self.metadata[-1]\<close> of the empty list and the search raises \<^verbatim>\<open>IndexError\<close>
  instead of returning the empty sequence.
\<close>

theorem search_empty_store_raises:
  "FAISSVectorDB_search (FAISSVectorDB_init 2) [1, 0] 5 None = Inl IndexError"
  by (simp add: store_eval)

text \<open>
  C2. On a store of one entry, \<open>top_k = 2\<close> without a filter returns two candidates and
  not \<open>min 2 1 = 1\<close>: the padding label \<open>-1\<close> passes the guard and reads the last
  entry a second time.
\<close>

theorem search_count_exceeds_store_size:
  "FAISSVectorDB_search store_one [1, 0] 2 None = Inr [meta_a, meta_a]
   \<and> length (idx_xb (index store_one)) = 1 \<and> length (metadata store_one) = 1"
  by (simp add: store_eval)

text \<open>
  C6. On the store of two entries, of which the second has similarity 1 to the query
  and the first similarity 0, \<open>top_k = 3\<close> returns the second entry, the first, and the
  second again: a candidate of similarity 1 follows one of similarity 0, so the result
  is not ordered by non-increasing similarity.
\<close>

theorem search_order_broken_by_padding:
  "FAISSVectorDB_search store_two [1, 0] 3 None = Inr [meta_b, meta_a, meta_b]
   \<and> search_index store_two [1, 0] 3 = Inr ([1, 0, FLT_LOWEST], [1, 0, - 1])
   \<and> map (fvec_inner_product (fvec_renorm_L2 [1, 0])) (idx_xb (index store_two)) = [0, 1]"
  by (simp add: store_eval)

section \<open>Adding to the flat store\<close>

lemma length_renorm: "length (fvec_renorm_L2 x) = length x"
  by (simp add: fvec_renorm_L2_def Let_def)

lemma list_all_normalize:
  "list_all (\<lambda>row. length row = n) (normalize_L2 vectors) = list_all (\<lambda>row. length row = n) vectors"
  by (simp add: normalize_L2_def list_all_iff length_renorm)

text \<open>
  C3, as the claim states it, fails: a batch of one vector with an empty metadata batch
  is added without any error, and the index then holds one vector more.
\<close>

theorem add_mismatched_lengths_succeeds:
  "length [[1, 0 :: real]] \<noteq> length ([] :: pydict list)
   \<and> FAISSVectorDB_add (FAISSVectorDB_init 2) [[1, 0]] []
       = ([[1, 0]], Inr \<lparr>index = \<lparr>idx_d = 2, idx_xb = [[1, 0]]\<rparr>, metadata = []\<rparr>)"
  by (simp add: store_eval)

text \<open>
  C3, amended. \<^verbatim>\<open>add\<close> compares no lengths. When every vector has the index's
  dimension the call succeeds whatever the two batch lengths are: all the normalised
  vectors are appended to the index and all the metadata to the metadata list, so the
  vector count grows by the number of vectors and the metadata count by the number of
  metadata entries.
\<close>

theorem add_without_length_check:
  assumes "list_all (\<lambda>row. length row = idx_d (index self)) vectors"
  shows "\<exists>self'. snd (FAISSVectorDB_add self vectors mds) = Inr self'
           \<and> idx_xb (index self') = idx_xb (index self) @ normalize_L2 vectors
           \<and> metadata self' = metadata self @ mds
           \<and> length (idx_xb (index self')) = length (idx_xb (index self)) + length vectors
           \<and> length (metadata self') = length (metadata self) + length mds"
  using assms
  by (simp add: FAISSVectorDB_add_def IndexFlatIP_add_def Let_def list_all_normalize)
     (simp add: normalize_L2_def)

theorem add_without_length_check_witness:
  "list_all (\<lambda>row. length row = idx_d (index store_one)) [[0, 1], [0, 2]]
   \<and> (\<exists>self'. snd (FAISSVectorDB_add store_one [[0, 1], [0, 2]] [meta_b]) = Inr self'
           \<and> idx_xb (index self') = idx_xb (index store_one) @ normalize_L2 [[0, 1], [0, 2]]
           \<and> metadata self' = metadata store_one @ [meta_b]
           \<and> length (idx_xb (index self')) = length (idx_xb (index store_one)) + length [[0, 1], [0, 2 :: real]]
           \<and> length (metadata self') = length (metadata store_one) + length [meta_b])"
proof -
  have h: "list_all (\<lambda>row. length row = idx_d (index store_one)) [[0, 1], [0, 2]]"
    by (simp add: store_one_def)
  from add_without_length_check [OF h, of "[meta_b]"] h show ?thesis by blast
qed






section \<open>The index returns a ranking\<close>

lemma heap_inv_init: "heap_inv scores k 0 (replicate k (FLT_LOWEST, - 1))"
  by (simp add: heap_inv_def sorted_replicate)

lemma sorted_head_least:
  fixes w :: "real \<times> int"
  assumes "sorted (w # others)" and "e \<in> set (w # others)"
  shows "fst w \<le> fst e"
proof -
  from assms have "w \<le> e" by auto
  then show ?thesis by (cases w, cases e) (auto simp: less_eq_prod_def)
qed

lemma heap_inv_step:
  assumes inv: "heap_inv scores k j heap"
  shows "heap_inv scores k (Suc j) (add_result heap (scores ! j, int j))"
proof (cases heap)
  case Nil
  with inv show ?thesis by (simp add: heap_inv_def add_result_def)
next
  case (Cons w others)
  let ?x = "(scores ! j, int j)"
  let ?pad = "(FLT_LOWEST, - 1 :: int)"
  from inv Cons have len: "length (w # others) = k" and srt: "sorted (w # others)"
    and mem: "\<forall>e \<in> set (w # others). e = ?pad \<or> (\<exists>i < j. e = (scores ! i, int i))"
    and dst: "distinct (filter (\<lambda>e. e \<noteq> ?pad) (w # others))"
    and out: "\<forall>i < j. (scores ! i, int i) \<notin> set (w # others)
                \<longrightarrow> (\<forall>e \<in> set (w # others). scores ! i \<le> fst e)"
    by (simp_all add: heap_inv_def)
  have least: "fst w \<le> fst e" if "e \<in> set (w # others)" for e
    using srt that by (rule sorted_head_least)
  show ?thesis
  proof (cases "fst w < scores ! j")
    case False
    then have same: "add_result heap ?x = w # others"
      using Cons by (simp add: add_result_def)
    have "\<forall>e \<in> set (w # others). e = ?pad \<or> (\<exists>i < Suc j. e = (scores ! i, int i))"
      using mem less_Suc_eq by blast
    moreover have "\<forall>e \<in> set (w # others). scores ! i \<le> fst e"
      if "i < Suc j" and "(scores ! i, int i) \<notin> set (w # others)" for i
    proof (cases "i = j")
      case True
      show ?thesis
      proof
        fix e assume "e \<in> set (w # others)"
        then have "fst w \<le> fst e" by (rule least)
        with False True show "scores ! i \<le> fst e" by simp
      qed
    next
      case False
      with that have "i < j" by simp
      with out that(2) show ?thesis by blast
    qed
    ultimately show ?thesis
      unfolding same heap_inv_def using len srt dst by blast
  next
    case True
    then have new: "add_result heap ?x = insort ?x others"
      using Cons by (simp add: add_result_def)
    have fresh: "?x \<notin> set others"
    proof
      assume "?x \<in> set others"
      then have "?x \<in> set (w # others)" by simp
      with mem have "?x = ?pad \<or> (\<exists>i < j. ?x = (scores ! i, int i))" by blast
      then show False by auto
    qed
    have "length (insort ?x others) = k" using len by simp
    moreover have "sorted (insort ?x others)" using srt by (simp add: sorted_insort)
    moreover have "\<forall>e \<in> set (insort ?x others). e = ?pad \<or> (\<exists>i < Suc j. e = (scores ! i, int i))"
    proof
      fix e assume "e \<in> set (insort ?x others)"
      then have "e = ?x \<or> e \<in> set others" by (simp add: set_insort_key)
      then show "e = ?pad \<or> (\<exists>i < Suc j. e = (scores ! i, int i))"
        using mem less_Suc_eq by auto
    qed
    moreover have "distinct (filter (\<lambda>e. e \<noteq> ?pad) (insort ?x others))"
    proof -
      have "sorted (map (\<lambda>e. e) others)" using srt by simp
      moreover have "?x \<noteq> ?pad" by simp
      ultimately have "filter (\<lambda>e. e \<noteq> ?pad) (insort ?x others)
            = insort ?x (filter (\<lambda>e. e \<noteq> ?pad) others)"
        by (rule filter_insort)
      moreover have "distinct (filter (\<lambda>e. e \<noteq> ?pad) others)"
        using dst by (simp split: if_splits)
      ultimately show ?thesis using fresh by (simp add: distinct_insort)
    qed
    moreover have "\<forall>e \<in> set (insort ?x others). scores ! i \<le> fst e"
      if "i < Suc j" and absent: "(scores ! i, int i) \<notin> set (insort ?x others)" for i
    proof -
      from absent have "i \<noteq> j" by (auto simp: set_insort_key)
      with that(1) have ij: "i < j" by simp
      have bound: "scores ! i \<le> fst w \<and> (\<forall>e \<in> set others. scores ! i \<le> fst e)"
      proof (cases "(scores ! i, int i) \<in> set (w # others)")
        case False
        with out ij show ?thesis by simp
      next
        case True
        with absent have "w = (scores ! i, int i)" by (auto simp: set_insort_key)
        then show ?thesis using least by auto
      qed
      show ?thesis
      proof
        fix e assume "e \<in> set (insort ?x others)"
        then have "e = ?x \<or> e \<in> set others" by (simp add: set_insort_key)
        with bound \<open>fst w < scores ! j\<close> show "scores ! i \<le> fst e" by auto
      qed
    qed
    ultimately show ?thesis unfolding new heap_inv_def by blast
  qed
qed

lemma heap_inv_fold:
  assumes "heap_inv scores k j heap" and "j \<le> m"
  shows "heap_inv scores k m (foldl add_result heap (map (\<lambda>i. (scores ! i, int i)) [j..<m]))"
  using assms(2)
proof (induction m)
  case 0
  with assms(1) show ?case by simp
next
  case (Suc m)
  show ?case
  proof (cases "j \<le> m")
    case True
    with Suc.IH have "heap_inv scores k m (foldl add_result heap (map (\<lambda>i. (scores ! i, int i)) [j..<m]))"
      by simp
    then have "heap_inv scores k (Suc m)
        (add_result (foldl add_result heap (map (\<lambda>i. (scores ! i, int i)) [j..<m])) (scores ! m, int m))"
      by (rule heap_inv_step)
    with True show ?thesis by simp
  next
    case False
    with Suc.prems have "j = Suc m" by simp
    with assms(1) show ?thesis by simp
  qed
qed

lemma zip_scores_labels:
  "zip scores (map int [0..<length scores]) = map (\<lambda>i. (scores ! i, int i)) [0..<length scores]"
  by (rule nth_equalityI) simp_all

lemma heap_inv_knn_heap: "heap_inv scores k (length scores) (knn_heap scores k)"
  unfolding knn_heap_def zip_scores_labels
  by (rule heap_inv_fold [OF heap_inv_init]) simp


lemma knn_heap_no_padding:
  assumes "k \<le> length scores" and above: "\<forall>s \<in> set scores. FLT_LOWEST < s"
  shows "(FLT_LOWEST, - 1) \<notin> set (knn_heap scores k)"
proof
  let ?h = "knn_heap scores k"
  let ?pad = "(FLT_LOWEST, - 1 :: int)"
  let ?n = "length scores"
  assume pad: "?pad \<in> set ?h"
  have inv: "heap_inv scores k ?n ?h" by (rule heap_inv_knn_heap)
  have "(scores ! i, int i) \<in> set ?h" if "i < ?n" for i
  proof (rule ccontr)
    assume "(scores ! i, int i) \<notin> set ?h"
    with inv that pad have "scores ! i \<le> fst ?pad" unfolding heap_inv_def by blast
    moreover from above that have "FLT_LOWEST < scores ! i" by simp
    ultimately show False by simp
  qed
  then have "(\<lambda>i. (scores ! i, int i)) ` {0..<?n} \<subseteq> set (filter (\<lambda>e. e \<noteq> ?pad) ?h)"
    by auto
  then have "card ((\<lambda>i. (scores ! i, int i)) ` {0..<?n}) \<le> card (set (filter (\<lambda>e. e \<noteq> ?pad) ?h))"
    by (intro card_mono) simp_all
  moreover have "card ((\<lambda>i. (scores ! i, int i)) ` {0..<?n}) = ?n"
    by (subst card_image) (auto simp: inj_on_def)
  moreover have "card (set (filter (\<lambda>e. e \<noteq> ?pad) ?h)) \<le> length (filter (\<lambda>e. e \<noteq> ?pad) ?h)"
    by (rule card_length)
  moreover have "length (filter (\<lambda>e. e \<noteq> ?pad) ?h) < length ?h"
    using pad by (intro length_filter_less) simp_all
  moreover have "length ?h = k" using inv by (simp add: heap_inv_def)
  ultimately show False using assms(1) by simp
qed

lemma knn_heap_ranking:
  assumes "k \<le> length scores" and "\<forall>s \<in> set scores. FLT_LOWEST < s"
  shows "\<exists>ls. top_k_ranking scores k ls
              \<and> rev (knn_heap scores k) = map (\<lambda>l. (scores ! l, int l)) ls"
proof -
  let ?h = "knn_heap scores k"
  let ?pad = "(FLT_LOWEST, - 1 :: int)"
  let ?n = "length scores"
  define ls where "ls = map (\<lambda>e. nat (snd e)) (rev ?h)"
  have inv: "heap_inv scores k ?n ?h" by (rule heap_inv_knn_heap)
  have nopad: "?pad \<notin> set ?h" using assms by (rule knn_heap_no_padding)
  have row: "\<exists>i < ?n. e = (scores ! i, int i)" if "e \<in> set ?h" for e
    using inv that nopad unfolding heap_inv_def by metis
  have ent: "(scores ! nat (snd e), int (nat (snd e))) = e" if "e \<in> set ?h" for e
    using row [OF that] by auto
  have shape: "rev ?h = map (\<lambda>l. (scores ! l, int l)) ls"
  proof -
    have "map (\<lambda>l. (scores ! l, int l)) ls
          = map (\<lambda>e. (scores ! nat (snd e), int (nat (snd e)))) (rev ?h)"
      by (simp add: ls_def comp_def)
    also have "\<dots> = map (\<lambda>e. e) (rev ?h)"
    proof (rule map_cong [OF refl])
      fix e assume "e \<in> set (rev ?h)"
      then have "e \<in> set ?h" by simp
      then show "(scores ! nat (snd e), int (nat (snd e))) = e" by (rule ent)
    qed
    finally show ?thesis by simp
  qed
  have "filter (\<lambda>e. e \<noteq> ?pad) ?h = ?h"
    using nopad by (auto simp: filter_id_conv)
  with inv have dh: "distinct ?h" by (simp add: heap_inv_def)
  have "inj_on (\<lambda>e. nat (snd e)) (set (rev ?h))"
  proof (rule inj_onI)
    fix a b assume "a \<in> set (rev ?h)" "b \<in> set (rev ?h)" "nat (snd a) = nat (snd b)"
    then show "a = b" using ent [of a] ent [of b] by simp
  qed
  with dh have d: "distinct ls" by (simp add: ls_def distinct_map)
  have r: "\<forall>l \<in> set ls. l < ?n"
  proof
    fix l assume "l \<in> set ls"
    then obtain e where e: "e \<in> set ?h" "l = nat (snd e)" by (auto simp: ls_def)
    from row [OF e(1)] obtain i where "i < ?n" "e = (scores ! i, int i)" by blast
    with e(2) show "l < ?n" by simp
  qed
  have len: "length ls = min k ?n"
    using inv assms(1) by (simp add: ls_def heap_inv_def)
  have "sorted_wrt (\<lambda>a b. b \<le> a) (rev ?h)"
    using inv by (simp add: heap_inv_def sorted_wrt_rev)
  then have "sorted_wrt (\<lambda>a b. fst b \<le> fst a) (rev ?h)"
    by (rule sorted_wrt_mono_rel [rotated]) (auto simp: less_eq_prod_def)
  then have s: "sorted_wrt (\<lambda>i j. scores ! j \<le> scores ! i) ls"
    unfolding shape by (simp add: sorted_wrt_map)
  have o: "\<forall>l \<in> set ls. scores ! i \<le> scores ! l" if "i < ?n" and "i \<notin> set ls" for i
  proof
    fix l assume l: "l \<in> set ls"
    have "(scores ! i, int i) \<notin> set ?h"
    proof
      assume "(scores ! i, int i) \<in> set ?h"
      then have "nat (snd (scores ! i, int i)) \<in> set ls" unfolding ls_def by force
      with that(2) show False by simp
    qed
    with inv that(1) have all: "\<forall>e \<in> set ?h. scores ! i \<le> fst e"
      unfolding heap_inv_def by blast
    from l obtain e where e: "e \<in> set ?h" "l = nat (snd e)" by (auto simp: ls_def)
    with ent [OF e(1)] have fe: "fst e = scores ! l" by (metis fst_conv)
    from all e(1) have "scores ! i \<le> fst e" by blast
    then show "scores ! i \<le> scores ! l" by (simp only: fe)
  qed
  from d r len s o have "top_k_ranking scores k ls"
    unfolding top_k_ranking_def by blast
  with shape show ?thesis by blast
qed

lemma collect_items_in_range:
  "\<forall>l \<in> set ls. l < length mds
   \<Longrightarrow> collect_items mds (map int ls) = Inr (map (\<lambda>l. with_defaults (mds ! l)) ls)"
  by (induction ls) (simp_all add: py_index_def)

lemma search_index_ranking:
  assumes "length q = idx_d (index self)" and "1 \<le> top_k"
    and "nat top_k \<le> length (idx_xb (index self))"
    and "\<forall>s \<in> set (index_scores (index self) (fvec_renorm_L2 q)). FLT_LOWEST < s"
  shows "\<exists>ls. top_k_ranking (index_scores (index self) (fvec_renorm_L2 q)) (nat top_k) ls
           \<and> search_index self q top_k
               = Inr (map (\<lambda>l. index_scores (index self) (fvec_renorm_L2 q) ! l) ls, map int ls)"
proof -
  let ?scores = "index_scores (index self) (fvec_renorm_L2 q)"
  have "nat top_k \<le> length ?scores" using assms(3) by (simp add: index_scores_def)
  from knn_heap_ranking [OF this assms(4)] obtain ls where
    rk: "top_k_ranking ?scores (nat top_k) ls"
    and h: "rev (knn_heap ?scores (nat top_k)) = map (\<lambda>l. (?scores ! l, int l)) ls"
    by blast
  have "search_index self q top_k = Inr (map (\<lambda>l. ?scores ! l) ls, map int ls)"
    using assms(1,2) h
    by (simp add: search_index_def IndexFlatIP_search_def length_renorm Let_def comp_def)
  with rk show ?thesis by blast
qed

section \<open>Searching the flat store\<close>

lemma map_of_setdefault_same: "map_of (setdefault dct k v) k \<noteq> None"
  by (simp add: setdefault_def map_add_def split: option.splits)

lemma map_of_setdefault_keeps:
  "map_of dct k' = Some w \<Longrightarrow> map_of (setdefault dct k v) k' = Some w"
  by (simp add: setdefault_def map_add_Some_iff split: option.splits)

lemma map_of_setdefault_other:
  "k' \<noteq> k \<Longrightarrow> map_of (setdefault dct k v) k' = map_of dct k'"
  by (simp add: setdefault_def map_add_def split: option.splits)

lemma with_defaults_keeps: "map_of m key = Some val \<Longrightarrow> map_of (with_defaults m) key = Some val"
  unfolding with_defaults_def by (intro map_of_setdefault_keeps)

lemma with_defaults_other:
  "key \<noteq> ''text'' \<Longrightarrow> key \<noteq> ''source'' \<Longrightarrow> map_of (with_defaults m) key = map_of m key"
  by (simp add: with_defaults_def map_of_setdefault_other)

lemma with_defaults_source:
  "map_of (with_defaults m) ''source''
   = (case map_of m ''source'' of None \<Rightarrow> Some (PStr ''unknown'') | Some w \<Rightarrow> Some w)"
  by (simp add: with_defaults_def setdefault_def map_add_def split: option.splits)

lemma collect_items_from_store:
  "collect_items mds is = Inr results \<Longrightarrow> r \<in> set results
   \<Longrightarrow> \<exists>m \<in> set mds. r = with_defaults m"
proof (induction "is" arbitrary: results)
  case Nil
  then show ?case by simp
next
  case (Cons i rest)
  show ?case
  proof (cases "i < int (length mds)")
    case False
    with Cons show ?thesis by simp
  next
    case True
    with Cons.prems(1) obtain m rs where
      m: "py_index mds i = Inr m" and rs: "collect_items mds rest = Inr rs"
      and res: "results = with_defaults m # rs"
      by (auto split: sum.splits)
    from m have "m \<in> set mds"
      by (auto simp: py_index_def split: if_splits)
    with Cons.IH [OF rs] Cons.prems(2) res show ?thesis by auto
  qed
qed

lemma search_results_from_collect:
  assumes "FAISSVectorDB_search self q k filters = Inr results"
  obtains D I ranked where "search_index self q k = Inr (D, I)"
    and "collect_items (metadata self) I = Inr ranked"
    and "results = apply_filters filters ranked"
  using assms by (auto simp: FAISSVectorDB_search_def split: sum.splits prod.splits)

lemma search_results_from_store:
  assumes "FAISSVectorDB_search self q k filters = Inr results" and "r \<in> set results"
  shows "\<exists>m \<in> set (metadata self). r = with_defaults m"
proof -
  from assms(1) obtain I ranked where
    coll: "collect_items (metadata self) I = Inr ranked"
    and res: "results = apply_filters filters ranked"
    by (auto elim: search_results_from_collect)
  have "set (apply_filters filters ranked) \<subseteq> set ranked"
    by (cases filters) auto
  with res assms(2) have "r \<in> set ranked" by blast
  with coll show ?thesis by (rule collect_items_from_store)
qed

lemma collect_items_length:
  "collect_items mds is = Inr results \<Longrightarrow> length results \<le> length is"
proof (induction "is" arbitrary: results)
  case Nil
  then show ?case by simp
next
  case (Cons i rest)
  then show ?case
    by (cases "i < int (length mds)") (auto split: sum.splits dest: le_SucI)
qed

lemma length_knn_heap: "length (knn_heap scores k) = k"
  using heap_inv_knn_heap [of scores k] by (simp add: heap_inv_def)

lemma search_index_length:
  assumes "search_index self q k = Inr (D, I)"
  shows "length I = nat k"
  using assms
  by (auto simp: search_index_def IndexFlatIP_search_def Let_def length_knn_heap split: if_splits)

text \<open>Each of the \<open>top_k\<close> labels gives at most one candidate.\<close>

lemma search_length_le_top_k:
  assumes "FAISSVectorDB_search self q k filters = Inr results"
  shows "length results \<le> nat k"
proof -
  from assms obtain D I ranked where
    idx: "search_index self q k = Inr (D, I)"
    and coll: "collect_items (metadata self) I = Inr ranked"
    and res: "results = apply_filters filters ranked"
    by (rule search_results_from_collect)
  have "length (apply_filters filters ranked) \<le> length ranked"
    by (cases filters) simp_all
  with res collect_items_length [OF coll] search_index_length [OF idx] show ?thesis by simp
qed

text \<open>
  C4. For a filter that is one pair of a field name and a value, on a store none of
  whose entries has \<^verbatim>\<open>None\<close> as its source, every candidate returned has the value
  under the named field, whatever the field name. (For a field name other than
  \<^verbatim>\<open>"source"\<close> this holds because nothing is returned: the filter's own source reads
  as \<^verbatim>\<open>None\<close>, which no candidate's source equals.)
\<close>

theorem search_filter_no_false_positive:
  assumes "\<forall>m \<in> set (metadata self). map_of m ''source'' \<noteq> Some PNone"
    and "FAISSVectorDB_search self q k (Some [(field, v)]) = Inr results"
    and "r \<in> set results"
  shows "map_of r field = Some v"
proof -
  from assms(2) obtain I ranked where
    coll: "collect_items (metadata self) I = Inr ranked"
    and res: "results = apply_filters (Some [(field, v)]) ranked"
    by (auto elim: search_results_from_collect)
  from res assms(3) have r: "r \<in> set ranked" and sm: "source_matches [(field, v)] r"
    by simp_all
  from collect_items_from_store [OF coll r] obtain m where
    m: "m \<in> set (metadata self)" and rm: "r = with_defaults m"
    by blast
  from m assms(1) have "map_of m ''source'' \<noteq> Some PNone" by blast
  then obtain w where w: "map_of r ''source'' = Some w" "w \<noteq> PNone"
    unfolding rm with_defaults_source by (cases "map_of m ''source''") auto
  show ?thesis
  proof (cases "field = ''source''")
    case True
    with sm w show ?thesis by (simp add: source_matches_def dict_get_def)
  next
    case False
    with sm w show ?thesis by (simp add: source_matches_def dict_get_def)
  qed
qed

theorem search_filter_no_false_positive_witness:
  "FAISSVectorDB_search store_two [1, 0] 2 (Some [(''source'', PStr ''a.txt'')]) = Inr [meta_a]
   \<and> map_of meta_a ''source'' = Some (PStr ''a.txt'')"
proof -
  have h: "\<forall>m \<in> set (metadata store_two). map_of m ''source'' \<noteq> Some PNone"
    by (simp add: store_two_def meta_a_def meta_b_def)
  have s: "FAISSVectorDB_search store_two [1, 0] 2 (Some [(''source'', PStr ''a.txt'')]) = Inr [meta_a]"
    by (simp add: store_eval)
  have "meta_a \<in> set [meta_a]" by simp
  from search_filter_no_false_positive [OF h s this] s show ?thesis by simp
qed

text \<open>With a filter on another field nothing is returned on such a store.\<close>

lemma search_filter_other_field_empty:
  assumes "\<forall>m \<in> set (metadata self). map_of m ''source'' \<noteq> Some PNone"
    and "field \<noteq> ''source''"
    and "FAISSVectorDB_search self q k (Some [(field, v)]) = Inr results"
  shows "results = []"
proof (rule ccontr)
  assume "results \<noteq> []"
  then obtain r where r: "r \<in> set results" by (cases results) auto
  from assms(3) obtain I ranked where
    coll: "collect_items (metadata self) I = Inr ranked"
    and res: "results = apply_filters (Some [(field, v)]) ranked"
    by (auto elim: search_results_from_collect)
  from res r have rr: "r \<in> set ranked" and sm: "source_matches [(field, v)] r"
    by simp_all
  from collect_items_from_store [OF coll rr] obtain m where
    m: "m \<in> set (metadata self)" and rm: "r = with_defaults m"
    by blast
  from m assms(1) have "map_of m ''source'' \<noteq> Some PNone" by blast
  then obtain w where "map_of r ''source'' = Some w" "w \<noteq> PNone"
    unfolding rm with_defaults_source by (cases "map_of m ''source''") auto
  with sm assms(2) show False by (simp add: source_matches_def dict_get_def)
qed

text \<open>On a store with no vector and no metadata, every search raises: the assertion of
  the index for a query of another dimension or a \<open>top_k\<close> below 1, and otherwise the
  read of the padding label in the empty metadata list.\<close>

lemma search_empty_store_always_raises:
  assumes "idx_xb (index self) = []" and "metadata self = []"
  shows "\<exists>e. FAISSVectorDB_search self q k filters = Inl e"
proof (cases "length q \<noteq> idx_d (index self) \<or> k \<le> 0")
  case True
  then show ?thesis
    by (auto simp: FAISSVectorDB_search_def search_index_def IndexFlatIP_search_def length_renorm)
next
  case False
  then obtain n where n: "nat k = Suc n" by (cases "nat k") auto
  from False assms(1) n have "search_index self q k
      = Inr (replicate (Suc n) FLT_LOWEST, replicate (Suc n) (- 1))"
    by (simp add: search_index_def IndexFlatIP_search_def knn_heap_def index_scores_def
          length_renorm map_replicate_const [symmetric] del: replicate_Suc)
  then show ?thesis
    using assms(2) by (simp add: FAISSVectorDB_search_def py_index_def)
qed

section \<open>Filtering after ranking\<close>

lemma source_filter_test:
  "source_matches [(''source'', v)] r = (dict_get r ''source'' PNone = v)"
  by (simp add: source_matches_def dict_get_def)

text \<open>
  C7, as the claim states it, fails, in two ways. A filter on a field other than the
  source is not applied to that field: the store of one entry with page 3 returns this
  entry for \<open>top_k = 1\<close>, yet with the filter on page 3 it returns nothing. And where
  \<open>top_k\<close> is above the size of the store the result is not cut from the ranking: on the
  store of two entries the ranking for \<open>top_k = 3\<close> is the second entry, then the
  first, of which the filter on the second entry's source leaves one candidate, but the
  search returns two.
\<close>

theorem filter_result_is_not_filtered_ranking:
  "FAISSVectorDB_search store_page [1, 0] 1 None = Inr [meta_page]
   \<and> map_of meta_page ''page'' = Some (PStr ''3'')
   \<and> FAISSVectorDB_search store_page [1, 0] 1 (Some [(''page'', PStr ''3'')]) = Inr []
   \<and> top_k_ranking (index_scores (index store_two) (fvec_renorm_L2 [1, 0])) 3 [1, 0]
   \<and> filter (\<lambda>r. dict_get r ''source'' PNone = PStr ''b.txt'')
        (map (\<lambda>l. with_defaults (metadata store_two ! l)) [1, 0]) = [meta_b]
   \<and> FAISSVectorDB_search store_two [1, 0] 3 (Some [(''source'', PStr ''b.txt'')])
       = Inr [meta_b, meta_b]"
  by (simp add: store_eval top_k_ranking_def less_Suc_eq)

text \<open>
  C7, amended. Take a store with one metadata entry per vector, a query of its
  dimension, \<open>top_k\<close> between 1 and the number of vectors, and every score above the
  value the index pads with. Then there is a ranking of the \<open>top_k\<close> best vectors over
  the whole store such that the search without filter returns its entries in that
  order, and the search with a filter on the source returns, in the same order, those
  of them whose source is the filter's value. So the result can hold fewer than
  \<open>top_k\<close> candidates although an entry beyond the cut matches: on the store of two
  entries, \<open>top_k = 1\<close> ranks the second entry, and the filter on the first entry's
  source then leaves nothing.
\<close>

theorem filter_on_source_after_ranking:
  assumes "length (metadata self) = length (idx_xb (index self))"
    and "length q = idx_d (index self)"
    and "1 \<le> top_k" and "nat top_k \<le> length (idx_xb (index self))"
    and "\<forall>s \<in> set (index_scores (index self) (fvec_renorm_L2 q)). FLT_LOWEST < s"
  shows "(\<exists>ls. top_k_ranking (index_scores (index self) (fvec_renorm_L2 q)) (nat top_k) ls
            \<and> FAISSVectorDB_search self q top_k None
                = Inr (map (\<lambda>l. with_defaults (metadata self ! l)) ls)
            \<and> FAISSVectorDB_search self q top_k (Some [(''source'', v)])
                = Inr (filter (\<lambda>r. dict_get r ''source'' PNone = v)
                         (map (\<lambda>l. with_defaults (metadata self ! l)) ls)))
     \<and> FAISSVectorDB_search store_two [1, 0] 1 None = Inr [meta_b]
     \<and> FAISSVectorDB_search store_two [1, 0] 1 (Some [(''source'', PStr ''a.txt'')]) = Inr []
     \<and> meta_a \<in> set (metadata store_two)
     \<and> dict_get meta_a ''source'' PNone = PStr ''a.txt''"
proof -
  let ?scores = "index_scores (index self) (fvec_renorm_L2 q)"
  from search_index_ranking [OF assms(2,3,4,5)] obtain ls where
    rk: "top_k_ranking ?scores (nat top_k) ls"
    and idx: "search_index self q top_k = Inr (map (\<lambda>l. ?scores ! l) ls, map int ls)"
    by blast
  from rk assms(1) have "\<forall>l \<in> set ls. l < length (metadata self)"
    by (simp add: top_k_ranking_def index_scores_def)
  then have coll: "collect_items (metadata self) (map int ls)
                   = Inr (map (\<lambda>l. with_defaults (metadata self ! l)) ls)"
    by (rule collect_items_in_range)
  have plain: "FAISSVectorDB_search self q top_k None
               = Inr (map (\<lambda>l. with_defaults (metadata self ! l)) ls)"
    by (simp add: FAISSVectorDB_search_def idx coll)
  have filtered: "FAISSVectorDB_search self q top_k (Some [(''source'', v)])
               = Inr (filter (\<lambda>r. dict_get r ''source'' PNone = v)
                        (map (\<lambda>l. with_defaults (metadata self ! l)) ls))"
    by (simp add: FAISSVectorDB_search_def idx coll source_filter_test [abs_def])
  have "FAISSVectorDB_search store_two [1, 0] 1 None = Inr [meta_b]"
    by (simp add: store_eval)
  moreover have "FAISSVectorDB_search store_two [1, 0] 1 (Some [(''source'', PStr ''a.txt'')]) = Inr []"
    by (simp add: store_eval)
  moreover have "meta_a \<in> set (metadata store_two)"
    by (simp add: store_two_def)
  moreover have "dict_get meta_a ''source'' PNone = PStr ''a.txt''"
    by (simp add: dict_get_def meta_a_def)
  ultimately show ?thesis using rk plain filtered by blast
qed

theorem filter_on_source_after_ranking_witness:
  "\<exists>ls. top_k_ranking (index_scores (index store_two) (fvec_renorm_L2 [1, 0])) (nat 2) ls
       \<and> FAISSVectorDB_search store_two [1, 0] 2 None
           = Inr (map (\<lambda>l. with_defaults (metadata store_two ! l)) ls)
       \<and> FAISSVectorDB_search store_two [1, 0] 2 (Some [(''source'', PStr ''b.txt'')])
           = Inr (filter (\<lambda>r. dict_get r ''source'' PNone = PStr ''b.txt'')
                    (map (\<lambda>l. with_defaults (metadata store_two ! l)) ls))"
proof -
  have a: "length (metadata store_two) = length (idx_xb (index store_two))"
    by (simp add: store_two_def)
  have b: "length [1, 0 :: real] = idx_d (index store_two)"
    by (simp add: store_two_def)
  have c: "(1 :: int) \<le> 2" by simp
  have d: "nat 2 \<le> length (idx_xb (index store_two))"
    by (simp add: store_two_def)
  have e: "\<forall>s \<in> set (index_scores (index store_two) (fvec_renorm_L2 [1, 0])). FLT_LOWEST < s"
    by (simp add: store_eval)
  from filter_on_source_after_ranking [OF a b c d e, of "PStr ''b.txt''"]
  show ?thesis by blast
qed

section \<open>What the two stores keep of the metadata\<close>

lemma py_index_map: "py_index (map f xs) i = map_sum id f (py_index xs i)"
  by (auto simp: py_index_def)

lemma py_index_in_set: "py_index xs i = Inr x \<Longrightarrow> x \<in> set xs"
  by (auto simp: py_index_def split: if_splits)

text \<open>
  The loop by reference does what the loop by value does, on new objects: the objects
  there were before the call are as they were, and the results are addresses of
  objects made during the call, holding the values that the loop by value returns.
\<close>

lemma collect_items_obj_sim:
  assumes "\<forall>r \<in> set refs. r < length objs"
  shows "take (length objs) (fst (collect_items_obj objs refs is)) = objs
     \<and> (case collect_items (map (\<lambda>r. objs ! r) refs) is of
          Inl e \<Rightarrow> snd (collect_items_obj objs refs is) = Inl e
        | Inr items \<Rightarrow>
            (\<exists>rs. snd (collect_items_obj objs refs is) = Inr rs
               \<and> map (\<lambda>r. fst (collect_items_obj objs refs is) ! r) rs = items
               \<and> (\<forall>r \<in> set rs. length objs \<le> r \<and> r < length (fst (collect_items_obj objs refs is)))))"
  using assms
proof (induction "is" arbitrary: objs)
  case Nil
  then show ?case by simp
next
  case (Cons i rest)
  let ?mds = "map (\<lambda>r. objs ! r) refs"
  show ?case
  proof (cases "i < int (length refs)")
    case False
    then have "collect_items_obj objs refs (i # rest) = collect_items_obj objs refs rest"
      and "collect_items ?mds (i # rest) = collect_items ?mds rest"
      by simp_all
    with Cons.IH [OF Cons.prems] show ?thesis by (simp only:)
  next
    case inside: True
    show ?thesis
    proof (cases "py_index refs i")
      case (Inl e)
      with inside have "collect_items_obj objs refs (i # rest) = (objs, Inl e)"
        and "collect_items ?mds (i # rest) = Inl e"
        by (simp_all add: py_index_map)
      then show ?thesis by simp
    next
      case (Inr r)
      then have "r \<in> set refs" by (rule py_index_in_set)
      with Cons.prems have r: "r < length objs" by blast
      let ?objs3 = "objs @ [with_defaults (objs ! r)]"
      let ?item = "length objs"
      obtain objs' res where run: "collect_items_obj ?objs3 refs rest = (objs', res)"
        by (cases "collect_items_obj ?objs3 refs rest")
      have step: "collect_items_obj objs refs (i # rest)
                  = (case res of Inl e \<Rightarrow> (objs', Inl e)
                     | Inr results \<Rightarrow> (objs', Inr (?item # results)))"
        using inside Inr run
        by (simp add: dict_copy_def obj_setdefault_def with_defaults_def split: sum.splits)
      have byval: "collect_items ?mds (i # rest)
                   = (case collect_items ?mds rest of Inl e \<Rightarrow> Inl e
                      | Inr results \<Rightarrow> Inr (with_defaults (objs ! r) # results))"
        using inside Inr by (simp add: py_index_map)
      have valid: "\<forall>r \<in> set refs. r < length ?objs3"
        using Cons.prems by auto
      have same: "map (\<lambda>r. ?objs3 ! r) refs = ?mds"
        using Cons.prems by (simp add: nth_append)
      from Cons.IH [OF valid, unfolded run same fst_conv snd_conv]
      have frame: "take (length ?objs3) objs' = ?objs3"
        and sim: "case collect_items ?mds rest of
                    Inl e \<Rightarrow> res = Inl e
                  | Inr items \<Rightarrow>
                      (\<exists>rs. res = Inr rs \<and> map (\<lambda>r. objs' ! r) rs = items
                         \<and> (\<forall>r \<in> set rs. length ?objs3 \<le> r \<and> r < length objs'))"
        by simp_all
      from frame have longer: "length ?objs3 \<le> length objs'"
        by (metis length_take min.cobounded1)
      have old: "take (length objs) objs' = objs"
      proof -
        have "take (length objs) objs' = take (length objs) (take (length ?objs3) objs')"
          by (simp add: min_def)
        also have "\<dots> = objs" unfolding frame by simp
        finally show ?thesis .
      qed
      have item: "objs' ! ?item = with_defaults (objs ! r)"
      proof -
        have "objs' ! ?item = take (length ?objs3) objs' ! ?item" by simp
        also have "\<dots> = with_defaults (objs ! r)" unfolding frame by simp
        finally show ?thesis .
      qed
      show ?thesis
      proof (cases "collect_items ?mds rest")
        case (Inl e)
        with sim have "res = Inl e" by simp
        with Inl old show ?thesis
          unfolding step byval by simp
      next
        case (Inr items)
        with sim obtain rs where rs: "res = Inr rs" "map (\<lambda>r. objs' ! r) rs = items"
          "\<forall>r \<in> set rs. length ?objs3 \<le> r \<and> r < length objs'"
          by auto
        from rs(3) have "\<forall>r \<in> set rs. length objs \<le> r \<and> r < length objs'" by auto
        with Inr old item rs(1,2) longer show ?thesis
          unfolding step byval by simp
      qed
    qed
  qed
qed

lemma filter_by_reference:
  "map (\<lambda>r. objs ! r) (apply_filters_obj objs filters rs)
   = apply_filters filters (map (\<lambda>r. objs ! r) rs)"
  by (cases filters) (simp_all add: filter_map comp_def)

lemma search_obj_sim:
  assumes "\<forall>r \<in> set (metadata_refs self). r < length objs"
  shows "take (length objs) (fst (FAISSVectorDB_search_obj objs self q k filters)) = objs
     \<and> (case FAISSVectorDB_search (store_of objs self) q k filters of
          Inl e \<Rightarrow> snd (FAISSVectorDB_search_obj objs self q k filters) = Inl e
        | Inr items \<Rightarrow>
            (\<exists>rs. snd (FAISSVectorDB_search_obj objs self q k filters) = Inr rs
               \<and> map (\<lambda>r. fst (FAISSVectorDB_search_obj objs self q k filters) ! r) rs = items
               \<and> (\<forall>r \<in> set rs. length objs \<le> r
                     \<and> r < length (fst (FAISSVectorDB_search_obj objs self q k filters)))))"
proof (cases "IndexFlatIP_search (index_obj self) (fvec_renorm_L2 q) k")
  case (Inl e)
  then show ?thesis
    by (simp add: FAISSVectorDB_search_obj_def FAISSVectorDB_search_def search_index_def store_of_def)
next
  case (Inr DI)
  obtain D I where DI: "DI = (D, I)" by (cases DI)
  let ?refs = "metadata_refs self"
  obtain objs' res where run: "collect_items_obj objs ?refs I = (objs', res)"
    by (cases "collect_items_obj objs ?refs I")
  from collect_items_obj_sim [OF assms, of I, unfolded run fst_conv snd_conv]
  have frame: "take (length objs) objs' = objs"
    and sim: "case collect_items (map (\<lambda>r. objs ! r) ?refs) I of
                Inl e \<Rightarrow> res = Inl e
              | Inr items \<Rightarrow>
                  (\<exists>rs. res = Inr rs \<and> map (\<lambda>r. objs' ! r) rs = items
                     \<and> (\<forall>r \<in> set rs. length objs \<le> r \<and> r < length objs'))"
    by simp_all
  show ?thesis
  proof (cases "collect_items (map (\<lambda>r. objs ! r) ?refs) I")
    case (Inl e)
    with sim have "res = Inl e" by simp
    with Inr DI run frame Inl show ?thesis
      by (simp add: FAISSVectorDB_search_obj_def FAISSVectorDB_search_def search_index_def
            store_of_def)
  next
    case items: (Inr items)
    with sim obtain rs where rs: "res = Inr rs" "map (\<lambda>r. objs' ! r) rs = items"
      "\<forall>r \<in> set rs. length objs \<le> r \<and> r < length objs'"
      by auto
    have sub: "set (apply_filters_obj objs' filters rs) \<subseteq> set rs"
      by (cases filters) auto
    have "map (\<lambda>r. objs' ! r) (apply_filters_obj objs' filters rs) = apply_filters filters items"
      using rs(2) by (simp add: filter_by_reference)
    with Inr DI run frame items rs(1,3) sub show ?thesis
      by (auto simp: FAISSVectorDB_search_obj_def FAISSVectorDB_search_def search_index_def
            store_of_def)
  qed
qed

text \<open>\<^verbatim>\<open>add\<close> by reference does what \<^verbatim>\<open>add\<close> by value does.\<close>

lemma add_obj_sim:
  "fst (snd (FAISSVectorDB_add_obj objs self vectors md_refs))
     = fst (FAISSVectorDB_add (store_of objs self) vectors (map (\<lambda>r. objs ! r) md_refs))
   \<and> map_sum id (store_of objs) (snd (snd (FAISSVectorDB_add_obj objs self vectors md_refs)))
     = snd (FAISSVectorDB_add (store_of objs self) vectors (map (\<lambda>r. objs ! r) md_refs))"
  by (simp add: FAISSVectorDB_add_obj_def FAISSVectorDB_add_def store_of_def Let_def
        IndexFlatIP_add_def)

text \<open>
  C8, as the claim states it, fails on the remote store: the points its \<^verbatim>\<open>add\<close>
  hands to the client carry a payload built from \<^verbatim>\<open>"text"\<close> and \<^verbatim>\<open>"source"\<close> alone,
  so the key \<^verbatim>\<open>"page"\<close> of the metadata never reaches the collection.
\<close>

theorem qdrant_add_drops_other_keys:
  "map point_payload (make_points (\<lambda>n. ''id'') [[1, 0]] [meta_page])
   = [[(''text'', PStr ''cats are mammals''), (''source'', PStr ''a.txt'')]]
   \<and> map_of meta_page ''page'' = Some (PStr ''3'')"
  by (simp add: make_points_def make_payload_def dict_get_def meta_page_def)

text \<open>
  C8, amended. On the flat store, \<^verbatim>\<open>add\<close> writes to no dictionary and appends the
  dictionaries it is given to those it holds; a search leaves every dictionary that
  existed before the call as it was, and each candidate it returns is a new dictionary
  that has all the keys and values of a stored entry, and beyond them at most
  \<^verbatim>\<open>"text"\<close> and \<^verbatim>\<open>"source"\<close>. On the remote store, the payload of every point that
  \<^verbatim>\<open>add\<close> hands to the client, and every result of a search, has the keys \<^verbatim>\<open>"text"\<close>
  and \<^verbatim>\<open>"source"\<close> and no other.
\<close>

theorem flat_store_keeps_metadata:
  assumes "\<forall>r \<in> set (metadata_refs self). r < length objs"
  shows "fst (FAISSVectorDB_add_obj objs self vectors md_refs) = objs
     \<and> (\<forall>self'. snd (snd (FAISSVectorDB_add_obj objs self vectors md_refs)) = Inr self'
           \<longrightarrow> metadata_refs self' = metadata_refs self @ md_refs)
     \<and> take (length objs) (fst (FAISSVectorDB_search_obj objs self q k filters)) = objs
     \<and> (\<forall>results. snd (FAISSVectorDB_search_obj objs self q k filters) = Inr results \<longrightarrow>
          (\<forall>r \<in> set results.
             length objs \<le> r
             \<and> (\<exists>a \<in> set (metadata_refs self).
                  (\<forall>key val. map_of (objs ! a) key = Some val
                     \<longrightarrow> map_of (fst (FAISSVectorDB_search_obj objs self q k filters) ! r) key = Some val)
                  \<and> (\<forall>key. key \<noteq> ''text'' \<and> key \<noteq> ''source''
                     \<longrightarrow> map_of (fst (FAISSVectorDB_search_obj objs self q k filters) ! r) key
                          = map_of (objs ! a) key))))
     \<and> (\<forall>p \<in> set (make_points uuid4 vectors mds). map fst (point_payload p) = [''text'', ''source''])
     \<and> (\<forall>found. QdrantVectorDB_search client_search q k filters = Inr found
           \<longrightarrow> (\<forall>r \<in> set found. map fst r = [''text'', ''source'']))"
proof -
  let ?run = "FAISSVectorDB_search_obj objs self q k filters"
  have a: "fst (FAISSVectorDB_add_obj objs self vectors md_refs) = objs"
    by (simp add: FAISSVectorDB_add_obj_def Let_def)
  have b: "metadata_refs self' = metadata_refs self @ md_refs"
    if "snd (snd (FAISSVectorDB_add_obj objs self vectors md_refs)) = Inr self'" for self'
    using that by (auto simp: FAISSVectorDB_add_obj_def Let_def split: sum.splits)
  note sim = search_obj_sim [OF assms, of q k filters]
  from sim have c: "take (length objs) (fst ?run) = objs" by blast
  have d: "length objs \<le> r
           \<and> (\<exists>a \<in> set (metadata_refs self).
                (\<forall>key val. map_of (objs ! a) key = Some val \<longrightarrow> map_of (fst ?run ! r) key = Some val)
                \<and> (\<forall>key. key \<noteq> ''text'' \<and> key \<noteq> ''source''
                     \<longrightarrow> map_of (fst ?run ! r) key = map_of (objs ! a) key))"
    if res: "snd ?run = Inr results" and r: "r \<in> set results" for results r
  proof -
    from sim res obtain items where
      items: "FAISSVectorDB_search (store_of objs self) q k filters = Inr items"
      and vals: "map (\<lambda>r. fst ?run ! r) results = items"
      and fresh: "\<forall>r \<in> set results. length objs \<le> r \<and> r < length (fst ?run)"
      by (cases "FAISSVectorDB_search (store_of objs self) q k filters") auto
    from r vals have "fst ?run ! r \<in> set items" by auto
    from search_results_from_store [OF items this] obtain m where
      m: "m \<in> set (metadata (store_of objs self))" and eq: "fst ?run ! r = with_defaults m"
      by blast
    from m obtain a where a: "a \<in> set (metadata_refs self)" "m = objs ! a"
      by (auto simp: store_of_def)
    have "map_of (fst ?run ! r) key = Some val" if "map_of (objs ! a) key = Some val" for key val
      unfolding eq a(2) using that by (rule with_defaults_keeps)
    moreover have "map_of (fst ?run ! r) key = map_of (objs ! a) key"
      if "key \<noteq> ''text'' \<and> key \<noteq> ''source''" for key
      unfolding eq a(2) using that by (simp add: with_defaults_other)
    ultimately show ?thesis using fresh r a(1) by blast
  qed
  have e: "\<forall>p \<in> set (make_points uuid4 vectors mds). map fst (point_payload p) = [''text'', ''source'']"
    by (auto simp: make_points_def make_payload_def)
  have f: "\<forall>r \<in> set found. map fst r = [''text'', ''source'']"
    if "QdrantVectorDB_search client_search q k filters = Inr found" for found
    using that by (auto simp: QdrantVectorDB_search_def make_payload_def split: sum.splits)
  from a b c d e f show ?thesis by blast
qed

theorem flat_store_keeps_metadata_witness:
  "FAISSVectorDB_search_obj [meta_page] \<lparr>index_obj = \<lparr>idx_d = 2, idx_xb = [[1, 0]]\<rparr>, metadata_refs = [0]\<rparr>
     [1, 0] 1 None = ([meta_page, meta_page], Inr [1])
   \<and> take (length [meta_page])
        (fst (FAISSVectorDB_search_obj [meta_page]
               \<lparr>index_obj = \<lparr>idx_d = 2, idx_xb = [[1, 0]]\<rparr>, metadata_refs = [0]\<rparr> [1, 0] 1 None))
      = [meta_page]"
proof -
  let ?self = "\<lparr>index_obj = \<lparr>idx_d = 2, idx_xb = [[1, 0]]\<rparr>, metadata_refs = [0]\<rparr>"
  have valid: "\<forall>r \<in> set (metadata_refs ?self). r < length [meta_page]" by simp
  have run: "FAISSVectorDB_search_obj [meta_page] ?self [1, 0] 1 None
             = ([meta_page, meta_page], Inr [1])"
    by (simp add: FAISSVectorDB_search_obj_def dict_copy_def obj_setdefault_def store_eval)
  from flat_store_keeps_metadata [OF valid, of "[]" "[]" "[1, 0]" 1 None]
  have "take (length [meta_page]) (fst (FAISSVectorDB_search_obj [meta_page] ?self [1, 0] 1 None))
        = [meta_page]"
    by blast
  with run show ?thesis by blast
qed

section \<open>Searching for the one vector of a store\<close>








text \<open>The vector \<open>[2, 0]\<close> is normalised to \<open>[1, 0]\<close> and scores 1 against itself.\<close>

lemma self_retrieval_example:
  "search_index \<lparr>index = \<lparr>idx_d = 2, idx_xb = [[1, 0]]\<rparr>, metadata = [meta_a]\<rparr> [2, 0] 1
   = Inr ([1], [0])"
  by (simp add: store_eval)

section \<open>Reranking\<close>

lemma gather_in_range:
  "\<forall>i \<in> set idxs. i < length xs \<Longrightarrow> gather xs (map int idxs) = Inr (map (\<lambda>i. xs ! i) idxs)"
  by (induction idxs) (simp_all add: py_index_def)

lemma is_argsort_insertion: "is_argsort scores (argsort_insertion scores)"
  by (simp add: is_argsort_def argsort_insertion_def)

text \<open>
  C5, as the claim states it, fails on ties: the store ranks the second passage before
  the first, and when the reranker scores both alike the retriever returns the first
  before the second, the reverse of the order they had before reranking.
\<close>

theorem rerank_ties_reverse_order:
  "FAISSVectorDB_search store_two [1, 0] 2 None = Inr [meta_b, meta_a]
   \<and> Retriever_retrieve (FAISSVectorDB_search store_two) (\<lambda>text. [1, 0]) (Some predict_equal)
        argsort_insertion ''finance'' 2 2 None
      = Inr [meta_a, meta_b]"
  by (simp add: Retriever_retrieve_def store_eval py_slice_to_def argsort_insertion_def
        predict_equal_def)

text \<open>
  C5, amended. With a reranker, at least one valid candidate, one score per pair,
  \<open>top_k_final\<close> not negative and \<^verbatim>\<open>np.argsort\<close> returning what it documents,
  \<^verbatim>\<open>retrieve\<close> scores every pair of the query and a valid candidate's text and
  returns the candidates at the first \<open>top_k_final\<close> positions of an ordering of all
  valid candidates by non-increasing score. Nothing is said of the order of candidates
  of equal score.
\<close>

theorem rerank_sorts_descending:
  assumes "db_search (embedder query) top_k_initial filters = Inr candidates"
    and "valid_candidates = filter (\<lambda>c. map_of c ''text'' \<noteq> None) candidates"
    and "valid_candidates \<noteq> []"
    and "scores = predict (map (\<lambda>c. (query, dict_get c ''text'' PNone)) valid_candidates)"
    and "length scores = length valid_candidates"
    and "0 \<le> top_k_final"
    and "is_argsort scores (argsort scores)"
  shows "\<exists>order.
           Retriever_retrieve db_search embedder (Some predict) argsort query
               top_k_initial top_k_final filters
             = Inr (map (\<lambda>i. valid_candidates ! i) (take (nat top_k_final) order))
           \<and> distinct order \<and> set order = {0..<length valid_candidates}
           \<and> sorted_wrt (\<lambda>i j. scores ! j \<le> scores ! i) order"
proof -
  let ?order = "rev (argsort scores)"
  from assms(7) have d: "distinct (argsort scores)"
    and s: "set (argsort scores) = {0..<length scores}"
    and a: "sorted (map (\<lambda>i. scores ! i) (argsort scores))"
    by (simp_all add: is_argsort_def)
  have in_range: "\<forall>i \<in> set (take (nat top_k_final) ?order). i < length valid_candidates"
    using assms(5) s by (auto dest: in_set_takeD)
  have "Retriever_retrieve db_search embedder (Some predict) argsort query
            top_k_initial top_k_final filters
        = gather valid_candidates (map int (take (nat top_k_final) ?order))"
    using assms(1,3,6) unfolding assms(2,4)
    by (simp add: Retriever_retrieve_def Let_def py_slice_to_def)
  also have "\<dots> = Inr (map (\<lambda>i. valid_candidates ! i) (take (nat top_k_final) ?order))"
    using in_range by (rule gather_in_range)
  finally have res: "Retriever_retrieve db_search embedder (Some predict) argsort query
            top_k_initial top_k_final filters
        = Inr (map (\<lambda>i. valid_candidates ! i) (take (nat top_k_final) ?order))" .
  have "sorted_wrt (\<lambda>i j. scores ! i \<le> scores ! j) (argsort scores)"
    using a by (simp add: sorted_map)
  then have desc: "sorted_wrt (\<lambda>i j. scores ! j \<le> scores ! i) ?order"
    by (simp add: sorted_wrt_rev)
  from res d s desc assms(5) show ?thesis
    by (intro exI [of _ ?order]) simp
qed

theorem rerank_sorts_descending_witness:
  "\<exists>order.
     Retriever_retrieve (FAISSVectorDB_search store_two) (\<lambda>text. [1, 0]) (Some predict_cats)
         argsort_insertion ''cats'' 2 1 None
       = Inr (map (\<lambda>i. [meta_b, meta_a] ! i) (take (nat 1) order))
     \<and> distinct order \<and> set order = {0..<length [meta_b, meta_a]}
     \<and> sorted_wrt (\<lambda>i j. [1, 2 :: real] ! j \<le> [1, 2] ! i) order"
proof -
  have c: "FAISSVectorDB_search store_two ((\<lambda>text. [1, 0]) ''cats'') 2 None = Inr [meta_b, meta_a]"
    by (simp add: store_eval)
  have v: "[meta_b, meta_a] = filter (\<lambda>c. map_of c ''text'' \<noteq> None) [meta_b, meta_a]"
    by (simp add: meta_a_def meta_b_def)
  have n: "[meta_b, meta_a] \<noteq> []" by simp
  have s: "[1, 2] = predict_cats (map (\<lambda>c. (''cats'', dict_get c ''text'' PNone)) [meta_b, meta_a])"
    by (simp add: predict_cats_def dict_get_def meta_a_def meta_b_def)
  have l: "length [1, 2 :: real] = length [meta_b, meta_a]" by simp
  have k: "(0 :: int) \<le> 1" by simp
  have a: "is_argsort [1, 2] (argsort_insertion [1, 2])" by (rule is_argsort_insertion)
  from rerank_sorts_descending
         [where db_search = "FAISSVectorDB_search store_two" and embedder = "\<lambda>text. [1, 0]"
            and query = "''cats''" and predict = predict_cats and argsort = argsort_insertion,
          OF c v n s l k a]
  show ?thesis .
qed

text \<open>The example retrieval returns the passage about cats.\<close>

lemma rerank_example:
  "Retriever_retrieve (FAISSVectorDB_search store_two) (\<lambda>text. [1, 0]) (Some predict_cats)
     argsort_insertion ''cats'' 2 1 None = Inr [meta_a]"
  by (simp add: Retriever_retrieve_def store_eval py_slice_to_def argsort_insertion_def
        predict_cats_def)

end
